theory Spec2Isabelle
  imports Complex_Main
begin

section \<open>Segment selection and opacity shaping of visualime/visualize.py\<close>

subsection \<open>Errors\<close>

text \<open>
  Every exception the modelled code can raise is a value. The first four are the
  \<open>ValueError\<close>s of the argument validation of \<open>select_segments\<close>, in source order;
  \<open>InvalidRelativeTo\<close> is the \<open>ValueError\<close> of \<open>scale_opacity\<close>. The others are raised by
  the interpreter or by numpy: a reduction (\<open>np.max\<close>) over an array without elements, an
  index out of range or a boolean index of the wrong shape, and a local variable read
  before assignment.
\<close>

datatype error =
    EitherRequired
  | OnlyEither
  | CoverageBounds
  | SegmentBounds
  | InvalidRelativeTo
  | ZeroSizeReduction
  | IndexError
  | UnboundLocal

subsection \<open>Two-dimensional label masks\<close>

text \<open>
  A mask is a list of rows. numpy arrays are rectangular: the shape is read off the
  first row, and the elements are the entries at the index pairs inside the shape.
\<close>

type_synonym mask = "nat list list"

definition shape0 :: "'a list list \<Rightarrow> nat" where
  "shape0 m = length m"

definition shape1 :: "'a list list \<Rightarrow> nat" where
  "shape1 m = (case m of [] \<Rightarrow> 0 | r # _ \<Rightarrow> length r)"

definition cells :: "'a list list \<Rightarrow> 'a list" where
  "cells m = concat (map (\<lambda>x. map (\<lambda>y. m ! x ! y) [0..<shape1 m]) [0..<shape0 m])"

definition rectangular :: "'a list list \<Rightarrow> bool" where
  "rectangular m = list_all (\<lambda>r. length r = shape1 m) m"

text \<open>\<open>np.max(segment_mask)\<close>; numpy raises on an array without elements.\<close>

definition np_max :: "mask \<Rightarrow> error + nat" where
  "np_max m = (case cells m of [] \<Rightarrow> Inl ZeroSizeReduction | c # cs \<Rightarrow> Inr (fold max cs c))"

text \<open>\<open>_area = segment_mask.shape[0] * segment_mask.shape[1]\<close>\<close>

definition area :: "mask \<Rightarrow> nat" where
  "area m = shape0 m * shape1 m"

text \<open>\<open>np.isin(segment_mask, selected).sum()\<close>\<close>

definition isin_sum :: "mask \<Rightarrow> nat list \<Rightarrow> nat" where
  "isin_sum m sel = length (filter (\<lambda>l. l \<in> set sel) (cells m))"

text \<open>
  \<open>np.isin(segment_mask, selected).sum() / _area\<close>. Floats are modelled as reals. A mask
  of area 0 has no elements, numpy computes \<open>0 / 0 = nan\<close> there, and every comparison
  with \<open>nan\<close> is false: \<open>None\<close> stands for \<open>nan\<close>.
\<close>

definition coverage_of :: "mask \<Rightarrow> nat list \<Rightarrow> real option" where
  "coverage_of m sel = (if area m = 0 then None else Some (real (isin_sum m sel) / real (area m)))"

definition cov_ge :: "mask \<Rightarrow> nat list \<Rightarrow> real \<Rightarrow> bool" where
  "cov_ge m sel c = (case coverage_of m sel of None \<Rightarrow> False | Some f \<Rightarrow> c \<le> f)"

definition cov_gt :: "mask \<Rightarrow> nat list \<Rightarrow> real \<Rightarrow> bool" where
  "cov_gt m sel c = (case coverage_of m sel of None \<Rightarrow> False | Some f \<Rightarrow> c < f)"

definition cov_lt :: "mask \<Rightarrow> nat list \<Rightarrow> real \<Rightarrow> bool" where
  "cov_lt m sel c = (case coverage_of m sel of None \<Rightarrow> False | Some f \<Rightarrow> f < c)"

subsection \<open>Ranking and slicing\<close>

text \<open>
  \<open>np.argsort(keys)\<close>: the indices of the keys, ordered by ascending key. numpy is not
  part of the repository; the model is the insertion sort of the index list by key. The
  call passes no \<open>kind\<close>, and numpy documents its default sort as not stable, so the order
  of indices with equal keys is the model's choice and no theorem below depends on it.
\<close>

definition argsort :: "real list \<Rightarrow> nat list" where
  "argsort ks = sort_key (\<lambda>i. ks ! i) [0..<length ks]"

text \<open>\<open>ordered_segments = np.argsort(-segment_weights)\<close>\<close>

definition ordered_segments :: "real list \<Rightarrow> nat list" where
  "ordered_segments ws = argsort (map uminus ws)"

text \<open>
  The slice \<open>xs[:n]\<close>. A negative \<open>n\<close> counts from the end, and the stop index is clipped
  at both ends.
\<close>

definition slice_to :: "'a list \<Rightarrow> int \<Rightarrow> 'a list" where
  "slice_to xs n = (if 0 \<le> n then take (nat n) xs else take (nat (int (length xs) + n)) xs)"

subsection \<open>The arguments of select_segments\<close>

record sel_args =
  segment_weights :: "real list"
  segment_mask :: mask
  coverage :: "real option"
  num_of_segments :: "int option"
  min_coverage :: real
  max_coverage :: real
  min_num_of_segments :: int
  max_num_of_segments :: "int option"

text \<open>A call that passes the two arrays and leaves every keyword at its default.\<close>

definition default_args :: "real list \<Rightarrow> mask \<Rightarrow> sel_args" where
  "default_args ws m =
     \<lparr>segment_weights = ws, segment_mask = m, coverage = None, num_of_segments = None,
      min_coverage = 0, max_coverage = 1, min_num_of_segments = 0,
      max_num_of_segments = None\<rparr>"

text \<open>
  \<open>max_num_of_segments or int(np.max(segment_mask) + 1)\<close>: Python's \<open>or\<close> takes the right
  operand when the left one is \<open>None\<close> or \<open>0\<close>, and evaluates it only then.
\<close>

definition resolve_max :: "int option \<Rightarrow> mask \<Rightarrow> error + int" where
  "resolve_max mx m =
     (if mx = None \<or> mx = Some 0
      then (case np_max m of Inl e \<Rightarrow> Inl e | Inr v \<Rightarrow> Inr (int v + 1))
      else Inr (the mx))"

text \<open>Lines 66 to 80: the resolved maximum, or the first error raised.\<close>

definition validate :: "sel_args \<Rightarrow> error + int" where
  "validate a =
     (case resolve_max (max_num_of_segments a) (segment_mask a) of
        Inl e \<Rightarrow> Inl e
      | Inr mx \<Rightarrow>
          if coverage a = None \<and> num_of_segments a = None then Inl EitherRequired
          else if coverage a \<noteq> None \<and> num_of_segments a \<noteq> None then Inl OnlyEither
          else if min_coverage a \<ge> max_coverage a then Inl CoverageBounds
          else if min_num_of_segments a \<ge> mx then Inl SegmentBounds
          else Inr mx)"

subsection \<open>The body of select_segments\<close>

text \<open>
  Lines 90 to 96: the \<open>for\<close> loop over \<open>range(max_num_of_segments + 1)\<close> with its \<open>break\<close>
  and its \<open>else\<close> branch. \<open>find\<close> returns the first index at which the loop breaks.
\<close>

definition scan_coverage :: "mask \<Rightarrow> nat list \<Rightarrow> real \<Rightarrow> int \<Rightarrow> int" where
  "scan_coverage m ordered c mx =
     (case find (\<lambda>i. cov_ge m (slice_to ordered i) c) [0..mx] of
        Some i \<Rightarrow> i - 2
      | None \<Rightarrow> mx)"

text \<open>Lines 86 to 96: the value of \<open>num_of_segments\<close> at line 98.\<close>

definition resolve_count :: "sel_args \<Rightarrow> int \<Rightarrow> nat list \<Rightarrow> int option" where
  "resolve_count a mx ordered =
     (case coverage a of
        Some c \<Rightarrow>
          Some (scan_coverage (segment_mask a) ordered
                  (max (min c (max_coverage a)) (min_coverage a)) mx)
      | None \<Rightarrow> num_of_segments a)"

text \<open>Lines 99 to 102: the clamped count and the candidate selection.\<close>

definition clamp_count :: "int \<Rightarrow> int \<Rightarrow> int \<Rightarrow> int" where
  "clamp_count k mn mx = max (min k mx) mn"

definition candidate :: "nat list \<Rightarrow> int \<Rightarrow> int \<Rightarrow> int \<Rightarrow> nat list" where
  "candidate ordered k mn mx = slice_to ordered (clamp_count k mn mx + 1)"

text \<open>
  The arguments of the recursive call: the two arrays and a coverage, every other
  keyword at its default.
\<close>

definition reinvoke_args :: "sel_args \<Rightarrow> real \<Rightarrow> sel_args" where
  "reinvoke_args a c = (default_args (segment_weights a) (segment_mask a))\<lparr>coverage := Some c\<rparr>"

text \<open>
  One invocation of \<open>select_segments\<close>, up to its return or its recursive call.
\<close>

datatype outcome = Return "error + nat list" | Reinvoke sel_args

definition select_body :: "sel_args \<Rightarrow> outcome" where
  "select_body a =
     (case validate a of
        Inl e \<Rightarrow> Return (Inl e)
      | Inr mx \<Rightarrow>
          let ordered = ordered_segments (segment_weights a) in
          (case resolve_count a mx ordered of
             None \<Rightarrow> Return (Inl UnboundLocal)
           | Some k \<Rightarrow>
               let sel = candidate ordered k (min_num_of_segments a) mx in
               if cov_gt (segment_mask a) sel (max_coverage a)
               then Reinvoke (reinvoke_args a (max_coverage a))
               else if cov_lt (segment_mask a) sel (min_coverage a)
               then Reinvoke (reinvoke_args a (min_coverage a))
               else Return (Inr sel)))"

text \<open>
  A recursive call is made only when the measured coverage, a fraction between 0 and 1,
  lies outside the caller's coverage bounds; the callee's bounds are 0 and 1.
\<close>

definition narrowed :: "sel_args \<Rightarrow> nat" where
  "narrowed a = (if min_coverage a \<le> 0 \<and> 1 \<le> max_coverage a then 0 else 1)"

function select_segments :: "sel_args \<Rightarrow> error + nat list" where
  "select_segments a =
     (case select_body a of
        Return r \<Rightarrow> r
      | Reinvoke a' \<Rightarrow> select_segments a')"
  by pat_completeness auto

text \<open>The number of nested recursive calls that an invocation makes.\<close>

function call_depth :: "sel_args \<Rightarrow> nat" where
  "call_depth a =
     (case select_body a of
        Return r \<Rightarrow> 0
      | Reinvoke a' \<Rightarrow> Suc (call_depth a'))"
  by pat_completeness auto

subsection \<open>scale_opacity\<close>

text \<open>
  The value passed as \<open>relative_to\<close>: Python does not enforce the annotation
  \<open>Union[str, float]\<close>, so the caller may pass a string, a float, an integer or \<open>None\<close>.
\<close>

datatype pyval = PStr string | PFloat real | PInt int | PNone

text \<open>
  An RGBA raster is a list of rows of pixels, a pixel the list of its channels. Arrays
  are objects on a heap: an address is an index into the list of allocated rasters, and
  an allocation appends to it. The element type \<open>'a\<close> is the dtype of the overlay; a
  float stored into the array is converted by \<open>cast\<close>.
\<close>

type_synonym 'a raster = "'a list list list"

type_synonym 'a heap = "'a raster list"

text \<open>\<open>np.linalg.norm(segment_weights)\<close>\<close>

definition l2_norm :: "real list \<Rightarrow> real" where
  "l2_norm ws = sqrt (sum_list (map (\<lambda>w. w * w) ws))"

text \<open>
  \<open>rescaled_weights = np.abs(segment_weights / np.linalg.norm(segment_weights))\<close>. Where
  the norm is 0 numpy yields \<open>nan\<close>; the quotient of the model is 0 there.
\<close>

definition rescale :: "real list \<Rightarrow> real list" where
  "rescale ws = map (\<lambda>w. \<bar>w / l2_norm ws\<bar>) ws"

text \<open>Lines 193 to 198. \<open>np.max\<close> raises on an array without elements.\<close>

definition reference_of :: "pyval \<Rightarrow> real list \<Rightarrow> error + real" where
  "reference_of relative_to rescaled =
     (if relative_to = PStr ''max''
      then (case rescaled of [] \<Rightarrow> Inl ZeroSizeReduction | r # rs \<Rightarrow> Inr (fold max rs r))
      else (case relative_to of
              PFloat r \<Rightarrow> Inr (max 0 (min r 1))
            | _ \<Rightarrow> Inl InvalidRelativeTo))"

text \<open>\<open>new_opacity = 255 * rescaled_weights/reference\<close>\<close>

definition new_opacity_of :: "real list \<Rightarrow> real \<Rightarrow> real list" where
  "new_opacity_of rescaled reference = map (\<lambda>r. 255 * r / reference) rescaled"

text \<open>
  A boolean index over the first two axes must have exactly their shape, and the
  channel index 3 must exist; numpy raises \<open>IndexError\<close> otherwise.
\<close>

definition shapes_agree :: "'a raster \<Rightarrow> mask \<Rightarrow> bool" where
  "shapes_agree ov m = list_all2 (\<lambda>orow mrow. length orow = length mrow) ov m"

definition has_alpha :: "'a raster \<Rightarrow> bool" where
  "has_alpha ov = list_all (list_all (\<lambda>px. 3 < length px)) ov"

text \<open>\<open>arr[segment_mask == segment_id, 3] = v\<close> on a raster\<close>

definition set_alpha :: "'a raster \<Rightarrow> mask \<Rightarrow> nat \<Rightarrow> 'a \<Rightarrow> 'a raster" where
  "set_alpha ov m segment_id v =
     map2 (\<lambda>orow mrow. map2 (\<lambda>px l. if l = segment_id then px[3 := v] else px) orow mrow) ov m"

text \<open>Lines 206 and 207: one iteration of the loop, on the array at address \<open>p\<close>.\<close>

definition write_segment ::
  "'a heap \<Rightarrow> nat \<Rightarrow> real list \<Rightarrow> mask \<Rightarrow> (real \<Rightarrow> 'a) \<Rightarrow> nat \<Rightarrow> error + 'a heap" where
  "write_segment h p new_opacity m cast segment_id =
     (if length new_opacity \<le> segment_id then Inl IndexError
      else if \<not> shapes_agree (h ! p) m \<or> \<not> has_alpha (h ! p) then Inl IndexError
      else Inr (h[p := set_alpha (h ! p) m segment_id (cast (new_opacity ! segment_id))]))"

text \<open>Lines 205 to 207: the loop over \<open>segments_to_color\<close>.\<close>

fun color_segments ::
  "'a heap \<Rightarrow> nat \<Rightarrow> real list \<Rightarrow> mask \<Rightarrow> (real \<Rightarrow> 'a) \<Rightarrow> nat list \<Rightarrow> error + 'a heap" where
  "color_segments h p new_opacity m cast [] = Inr h"
| "color_segments h p new_opacity m cast (segment_id # rest) =
     (case write_segment h p new_opacity m cast segment_id of
        Inl e \<Rightarrow> Inl e
      | Inr h' \<Rightarrow> color_segments h' p new_opacity m cast rest)"

text \<open>
  \<open>scale_opacity\<close>: the overlay is the array at address \<open>overlay\<close> of the heap \<open>h\<close>;
  \<open>np.ndarray.copy\<close> allocates the copy at the next free address. The result is the
  address returned and the heap after the call.
\<close>

definition scale_opacity ::
  "'a heap \<Rightarrow> nat \<Rightarrow> real list \<Rightarrow> mask \<Rightarrow> nat list \<Rightarrow> pyval \<Rightarrow> (real \<Rightarrow> 'a)
     \<Rightarrow> error + (nat \<times> 'a heap)" where
  "scale_opacity h overlay weights m segments_to_color relative_to cast =
     (let rescaled_weights = rescale weights in
      case reference_of relative_to rescaled_weights of
        Inl e \<Rightarrow> Inl e
      | Inr reference \<Rightarrow>
          let new_opacity = new_opacity_of rescaled_weights reference;
              new_overlay = length h;
              h1 = h @ [h ! overlay]
          in (case color_segments h1 new_overlay new_opacity m cast segments_to_color of
                Inl e \<Rightarrow> Inl e
              | Inr h2 \<Rightarrow> Inr (new_overlay, h2)))"

section \<open>Properties of select_segments\<close>

subsection \<open>Termination and the shape of one invocation\<close>

lemma isin_sum_le_area: "isin_sum m sel \<le> area m"
proof -
  have "length (cells m) = area m"
    by (simp add: cells_def area_def length_concat comp_def sum_list_triv)
  then show ?thesis
    unfolding isin_sum_def by (metis length_filter_le)
qed

lemma coverage_of_bounds: "coverage_of m sel = Some f \<Longrightarrow> 0 \<le> f \<and> f \<le> 1"
  using isin_sum_le_area [of m sel]
  by (auto simp: coverage_of_def split: if_splits)

lemma cov_gt_less_one: "cov_gt m sel c \<Longrightarrow> c < 1"
  using coverage_of_bounds [of m sel]
  by (auto simp: cov_gt_def split: option.splits)

lemma cov_lt_pos: "cov_lt m sel c \<Longrightarrow> 0 < c"
  using coverage_of_bounds [of m sel]
  by (auto simp: cov_lt_def split: option.splits)

lemma narrowed_reinvoke_args [simp]: "narrowed (reinvoke_args a c) = 0"
  by (simp add: narrowed_def reinvoke_args_def default_args_def)

lemma select_body_Reinvoke:
  assumes "select_body a = Reinvoke a'"
  shows "narrowed a' < narrowed a"
proof -
  from assms have "(\<exists>sel. cov_gt (segment_mask a) sel (max_coverage a) \<and> a' = reinvoke_args a (max_coverage a))
     \<or> (\<exists>sel. cov_lt (segment_mask a) sel (min_coverage a) \<and> a' = reinvoke_args a (min_coverage a))"
    unfolding select_body_def Let_def
    by (simp split: sum.splits option.splits if_splits) blast+
  then have "narrowed a' = 0 \<and> (max_coverage a < 1 \<or> 0 < min_coverage a)"
    using cov_gt_less_one cov_lt_pos by auto
  then show ?thesis
    by (auto simp: narrowed_def split: if_splits)
qed

termination select_segments
  by (relation "measure narrowed") (simp_all add: select_body_Reinvoke)

termination call_depth
  by (relation "measure narrowed") (simp_all add: select_body_Reinvoke)

declare select_segments.simps [simp del] call_depth.simps [simp del]

lemma length_cells: "length (cells m) = area m"
  by (simp add: cells_def area_def length_concat comp_def sum_list_triv)

lemma slice_to_nonneg: "0 \<le> n \<Longrightarrow> slice_to xs n = take (nat n) xs"
  by (simp add: slice_to_def)

lemma cells_rectangular:
  assumes "rectangular m"
  shows "cells m = concat m"
proof -
  have "map (\<lambda>x. map (\<lambda>y. m ! x ! y) [0..<shape1 m]) [0..<shape0 m] =
      map (\<lambda>x. m ! x) [0..<length m]"
  proof (rule map_cong)
    show "[0..<shape0 m] = [0..<length m]" by (simp add: shape0_def)
  next
    fix x assume "x \<in> set [0..<length m]"
    then have "length (m ! x) = shape1 m"
      using assms by (simp add: rectangular_def list_all_length)
    then show "map (\<lambda>y. m ! x ! y) [0..<shape1 m] = m ! x"
      by (metis map_nth)
  qed
  then show ?thesis
    by (simp add: cells_def map_nth)
qed

lemma ordered_segments_perm:
  "set (ordered_segments ws) = {0..<length ws} \<and> distinct (ordered_segments ws) \<and>
   length (ordered_segments ws) = length ws"
  by (simp add: ordered_segments_def argsort_def)

lemma ordered_segments_descending:
  "sorted (map (\<lambda>i. - (ws ! i)) (ordered_segments ws))"
proof -
  have "sorted (map (\<lambda>i. map uminus ws ! i) (ordered_segments ws))"
    unfolding ordered_segments_def argsort_def by (rule sorted_sort_key)
  moreover have "set (ordered_segments ws) = {0..<length ws}"
    using ordered_segments_perm [of ws] by simp
  then have "map (\<lambda>i. map uminus ws ! i) (ordered_segments ws) =
      map (\<lambda>i. - (ws ! i)) (ordered_segments ws)"
    by (intro map_cong) auto
  ultimately show ?thesis by simp
qed

lemma select_body_narrowed0:
  assumes "narrowed a = 0"
  shows "\<exists>r. select_body a = Return r"
proof (cases "select_body a")
  case (Return r)
  then show ?thesis by blast
next
  case (Reinvoke a')
  from select_body_Reinvoke [OF this] assms show ?thesis by simp
qed

lemma coverage_of_Some_np_max:
  assumes "coverage_of m sel = Some f"
  shows "\<exists>v. np_max m = Inr v"
proof -
  from assms have "area m \<noteq> 0" by (auto simp: coverage_of_def split: if_splits)
  then have "cells m \<noteq> []" using length_cells [of m] by auto
  then show ?thesis by (auto simp: np_max_def split: list.splits)
qed

lemma validate_reinvoke_args:
  assumes "np_max (segment_mask a) = Inr v"
  shows "validate (reinvoke_args a c) = Inr (int v + 1)"
  using assms
  by (simp add: validate_def reinvoke_args_def default_args_def resolve_max_def)

lemma select_body_valid:
  assumes "validate a = Inr mx"
  shows "\<exists>k. resolve_count a mx (ordered_segments (segment_weights a)) = Some k \<and>
    select_body a =
      (let sel = candidate (ordered_segments (segment_weights a)) k (min_num_of_segments a) mx in
       if cov_gt (segment_mask a) sel (max_coverage a)
       then Reinvoke (reinvoke_args a (max_coverage a))
       else if cov_lt (segment_mask a) sel (min_coverage a)
       then Reinvoke (reinvoke_args a (min_coverage a))
       else Return (Inr sel))"
proof -
  from assms have "coverage a \<noteq> None \<or> num_of_segments a \<noteq> None"
    by (auto simp: validate_def split: sum.splits if_splits)
  then have "\<exists>k. resolve_count a mx (ordered_segments (segment_weights a)) = Some k"
    by (cases "coverage a") (auto simp: resolve_count_def)
  then obtain k where k: "resolve_count a mx (ordered_segments (segment_weights a)) = Some k"
    by blast
  show ?thesis
    using assms k by (simp add: select_body_def Let_def)
qed

lemma select_body_reinvoke_args:
  assumes "np_max (segment_mask a) = Inr v"
  shows "select_body (reinvoke_args a c) =
     Return (Inr (candidate (ordered_segments (segment_weights a))
       (scan_coverage (segment_mask a) (ordered_segments (segment_weights a))
          (max (min c 1) 0) (int v + 1)) 0 (int v + 1)))"
proof -
  have v: "validate (reinvoke_args a c) = Inr (int v + 1)"
    by (rule validate_reinvoke_args [OF assms])
  have f: "segment_weights (reinvoke_args a c) = segment_weights a"
    "segment_mask (reinvoke_args a c) = segment_mask a"
    "coverage (reinvoke_args a c) = Some c"
    "min_coverage (reinvoke_args a c) = 0" "max_coverage (reinvoke_args a c) = 1"
    "min_num_of_segments (reinvoke_args a c) = 0"
    by (simp_all add: reinvoke_args_def default_args_def)
  have g: "\<not> cov_gt m sel 1" "\<not> cov_lt m sel 0" for m sel
    using cov_gt_less_one [of m sel 1] cov_lt_pos [of m sel 0] by auto
  show ?thesis
    by (simp add: select_body_def v f g resolve_count_def Let_def)
qed

lemma select_body_valid_cases:
  assumes "validate a = Inr mx"
  shows "(\<exists>sel. select_body a = Return (Inr sel)) \<or>
    (\<exists>a' sel. select_body a = Reinvoke a' \<and> select_body a' = Return (Inr sel))"
proof -
  let ?ord = "ordered_segments (segment_weights a)"
  from select_body_valid [OF assms] obtain k where
    body: "select_body a =
      (let sel = candidate ?ord k (min_num_of_segments a) mx in
       if cov_gt (segment_mask a) sel (max_coverage a)
       then Reinvoke (reinvoke_args a (max_coverage a))
       else if cov_lt (segment_mask a) sel (min_coverage a)
       then Reinvoke (reinvoke_args a (min_coverage a))
       else Return (Inr sel))"
    by blast
  show ?thesis
  proof (cases "select_body a")
    case (Return r)
    with body show ?thesis
      by (auto simp: Let_def split: if_splits)
  next
    case (Reinvoke a')
    with body obtain c sel f where a': "a' = reinvoke_args a c"
      and "coverage_of (segment_mask a) sel = Some f"
      by (auto simp: Let_def cov_gt_def cov_lt_def split: if_splits option.splits)
    then obtain v where "np_max (segment_mask a) = Inr v"
      using coverage_of_Some_np_max by blast
    from select_body_reinvoke_args [OF this, of c] a'
    obtain sel' where "select_body a' = Return (Inr sel')"
      by blast
    with Reinvoke show ?thesis
      by simp
  qed
qed

lemma select_segments_error_iff_validate:
  "select_segments a = Inl e \<longleftrightarrow> validate a = Inl e"
proof (cases "validate a")
  case (Inl e')
  then have "select_body a = Return (Inl e')"
    by (simp add: select_body_def)
  with Inl show ?thesis
    by (simp add: select_segments.simps)
next
  case (Inr mx)
  from select_body_valid_cases [OF this] obtain sel where "select_segments a = Inr sel"
    by (auto simp: select_segments.simps [of a] select_segments.simps [of "a'" for a'])
  with Inr show ?thesis
    by simp
qed

lemma validate_error_iff:
  assumes "np_max (segment_mask a) = Inr v"
    and "mx = (if max_num_of_segments a = None \<or> max_num_of_segments a = Some 0
               then int v + 1 else the (max_num_of_segments a))"
  shows "(\<exists>e. validate a = Inl e) \<longleftrightarrow>
    (coverage a = None \<and> num_of_segments a = None) \<or>
    (coverage a \<noteq> None \<and> num_of_segments a \<noteq> None) \<or>
    max_coverage a \<le> min_coverage a \<or> mx \<le> min_num_of_segments a"
  using assms by (auto simp: validate_def resolve_max_def)

subsection \<open>Recursion depth\<close>

text \<open>
  C3: for every input that passes validation, \<open>select_segments\<close> returns a selection, and
  it makes at most one nested recursive call: a call re-invoked because the candidate's
  coverage lies above \<open>max_coverage\<close> or below \<open>min_coverage\<close> returns without a further
  recursive call. (That \<open>select_segments\<close> terminates on every input is its termination
  proof above.)
\<close>

theorem select_segments_depth_le_one:
  assumes "validate a = Inr mx"
  shows "call_depth a \<le> 1 \<and> (\<exists>sel. select_segments a = Inr sel) \<and>
    (\<forall>a'. select_body a = Reinvoke a' \<longrightarrow> (\<exists>sel. select_body a' = Return (Inr sel)))"
proof -
  from select_body_valid_cases [OF assms] show ?thesis
  proof (elim disjE exE conjE)
    fix sel assume "select_body a = Return (Inr sel)"
    then show ?thesis
      by (simp add: select_segments.simps call_depth.simps)
  next
    fix a' sel assume "select_body a = Reinvoke a'" "select_body a' = Return (Inr sel)"
    then show ?thesis
      by (simp add: select_segments.simps [of a] select_segments.simps [of a']
          call_depth.simps [of a] call_depth.simps [of a'])
  qed
qed

theorem select_segments_depth_le_one_witness:
  "validate ((default_args [1, 0, 3] [[0, 1, 2]])\<lparr>num_of_segments := Some 2, max_coverage := 1 / 2\<rparr>) = Inr 3
   \<and> call_depth ((default_args [1, 0, 3] [[0, 1, 2]])\<lparr>num_of_segments := Some 2, max_coverage := 1 / 2\<rparr>) \<le> 1
   \<and> (\<exists>sel. select_segments ((default_args [1, 0, 3] [[0, 1, 2]])\<lparr>num_of_segments := Some 2, max_coverage := 1 / 2\<rparr>) = Inr sel)"
proof -
  let ?a = "(default_args [1, 0, 3] [[0, 1, 2]])\<lparr>num_of_segments := Some 2, max_coverage := 1 / 2\<rparr>"
  have v: "validate ?a = Inr 3" by code_simp
  from select_segments_depth_le_one [OF v] v show ?thesis by blast
qed

subsection \<open>The count-driven path\<close>

text \<open>
  C1: in a call that passes validation with \<open>num_of_segments = k\<close> and no coverage, let
  \<open>k' = max(min_num_of_segments, min(k, max_num_of_segments))\<close>, the maximum being the
  resolved one. If the coverage fraction of the first \<open>k' + 1\<close> ranked ids is at least
  \<open>min_coverage\<close> and at most \<open>max_coverage\<close>, the call returns exactly these ids: the slice
  \<open>ordered_segments[:k' + 1]\<close>, which for \<open>0 \<le> k' + 1\<close> is the prefix of that length.
\<close>

theorem select_segments_count_candidate:
  assumes "validate a = Inr mx"
    and "coverage a = None"
    and "num_of_segments a = Some k"
    and "k' = max (min_num_of_segments a) (min k mx)"
    and "coverage_of (segment_mask a) (slice_to (ordered_segments (segment_weights a)) (k' + 1)) = Some f"
    and "min_coverage a \<le> f"
    and "f \<le> max_coverage a"
  shows "select_segments a = Inr (slice_to (ordered_segments (segment_weights a)) (k' + 1)) \<and>
    (0 \<le> k' + 1 \<longrightarrow>
       select_segments a = Inr (take (nat (k' + 1)) (ordered_segments (segment_weights a))))"
proof -
  let ?ord = "ordered_segments (segment_weights a)"
  have rc: "resolve_count a mx ?ord = Some k"
    using assms(2,3) by (simp add: resolve_count_def)
  have cand: "candidate ?ord k (min_num_of_segments a) mx = slice_to ?ord (k' + 1)"
    using assms(4) by (simp add: candidate_def clamp_count_def max.commute)
  have "\<not> cov_gt (segment_mask a) (slice_to ?ord (k' + 1)) (max_coverage a)"
    and "\<not> cov_lt (segment_mask a) (slice_to ?ord (k' + 1)) (min_coverage a)"
    using assms(5,6,7) by (simp_all add: cov_gt_def cov_lt_def)
  with select_body_valid [OF assms(1)] rc cand
  have "select_body a = Return (Inr (slice_to ?ord (k' + 1)))"
    by (auto simp: Let_def)
  then have "select_segments a = Inr (slice_to ?ord (k' + 1))"
    by (simp add: select_segments.simps)
  then show ?thesis
    by (simp add: slice_to_nonneg)
qed

theorem select_segments_count_candidate_witness:
  "validate ((default_args [1, 0, 3] [[0, 1, 2]])\<lparr>num_of_segments := Some 1\<rparr>) = Inr 3
   \<and> select_segments ((default_args [1, 0, 3] [[0, 1, 2]])\<lparr>num_of_segments := Some 1\<rparr>) = Inr [2, 0]"
proof -
  let ?a = "(default_args [1, 0, 3] [[0, 1, 2]])\<lparr>num_of_segments := Some 1\<rparr>"
  have v: "validate ?a = Inr 3" by code_simp
  have c: "coverage ?a = None" and n: "num_of_segments ?a = Some 1"
    and lo: "min_coverage ?a \<le> 2 / 3" and hi: "2 / 3 \<le> max_coverage ?a"
    by (simp_all add: default_args_def)
  have k: "(1::int) = max (min_num_of_segments ?a) (min 1 3)"
    by (simp add: default_args_def)
  have o: "ordered_segments (segment_weights ?a) = [2, 0, 1]" by code_simp
  have f: "coverage_of (segment_mask ?a) (slice_to (ordered_segments (segment_weights ?a)) (1 + 1)) = Some (2 / 3)"
    by code_simp
  have t: "take (nat (1 + 1)) [2, 0, 1 :: nat] = [2, 0]" by code_simp
  from select_segments_count_candidate [OF v c n k f lo hi]
  have "select_segments ?a = Inr (take (nat (1 + 1)) (ordered_segments (segment_weights ?a)))"
    by (simp add: slice_to_def)
  with v o t show ?thesis
    by simp
qed

subsection \<open>The arguments of the recursive call\<close>

text \<open>
  C8: when the candidate's coverage lies above \<open>max_coverage\<close>, or else below
  \<open>min_coverage\<close>, the call re-invokes \<open>select_segments\<close> with the two arrays and the
  violated bound \<open>c\<close> as the coverage, every other keyword at its default. The selection
  returned is then determined by the arrays and \<open>c\<close> alone: the caller's coverage and count
  bounds do not occur in it.
\<close>

theorem select_segments_reinvoke_defaults:
  assumes "validate a = Inr mx"
    and "resolve_count a mx (ordered_segments (segment_weights a)) = Some k"
    and "sel = candidate (ordered_segments (segment_weights a)) k (min_num_of_segments a) mx"
    and "c = max_coverage a \<and> cov_gt (segment_mask a) sel c \<or>
         c = min_coverage a \<and> \<not> cov_gt (segment_mask a) sel (max_coverage a) \<and>
           cov_lt (segment_mask a) sel c"
  shows "select_body a = Reinvoke (reinvoke_args a c) \<and>
    reinvoke_args a c = (default_args (segment_weights a) (segment_mask a))\<lparr>coverage := Some c\<rparr> \<and>
    (\<exists>v. np_max (segment_mask a) = Inr v \<and>
       select_segments a =
         Inr (candidate (ordered_segments (segment_weights a))
                (scan_coverage (segment_mask a) (ordered_segments (segment_weights a))
                   (max (min c 1) 0) (int v + 1))
                0 (int v + 1)))"
proof -
  let ?ord = "ordered_segments (segment_weights a)"
  from select_body_valid [OF assms(1)] assms(2,3,4)
  have body: "select_body a = Reinvoke (reinvoke_args a c)"
    by (auto simp: Let_def)
  from assms(4) obtain f where "coverage_of (segment_mask a) sel = Some f"
    by (auto simp: cov_gt_def cov_lt_def split: option.splits)
  then obtain v where v: "np_max (segment_mask a) = Inr v"
    using coverage_of_Some_np_max by blast
  have "select_segments a = select_segments (reinvoke_args a c)"
    using body by (simp add: select_segments.simps [of a])
  also have "\<dots> = Inr (candidate ?ord (scan_coverage (segment_mask a) ?ord
                   (max (min c 1) 0) (int v + 1)) 0 (int v + 1))"
    using select_body_reinvoke_args [OF v, of c]
    by (simp add: select_segments.simps [of "reinvoke_args a c"])
  finally show ?thesis
    using body v by (simp add: reinvoke_args_def)
qed

theorem select_segments_reinvoke_defaults_witness:
  "validate ((default_args [1, 0, 3] [[0, 1, 2]])
      \<lparr>num_of_segments := Some 2, max_coverage := 1 / 2, min_num_of_segments := 2\<rparr>) = Inr 3
   \<and> select_body ((default_args [1, 0, 3] [[0, 1, 2]])
      \<lparr>num_of_segments := Some 2, max_coverage := 1 / 2, min_num_of_segments := 2\<rparr>) =
     Reinvoke ((default_args [1, 0, 3] [[0, 1, 2]])\<lparr>coverage := Some (1 / 2)\<rparr>)
   \<and> select_segments ((default_args [1, 0, 3] [[0, 1, 2]])
      \<lparr>num_of_segments := Some 2, max_coverage := 1 / 2, min_num_of_segments := 2\<rparr>) = Inr [2]"
proof -
  let ?a = "(default_args [1, 0, 3] [[0, 1, 2]])
      \<lparr>num_of_segments := Some 2, max_coverage := 1 / 2, min_num_of_segments := 2\<rparr>"
  have v: "validate ?a = Inr 3" by code_simp
  have rc: "resolve_count ?a 3 (ordered_segments (segment_weights ?a)) = Some 2" by code_simp
  have sel: "[2, 0, 1] =
      candidate (ordered_segments (segment_weights ?a)) 2 (min_num_of_segments ?a) 3"
    by code_simp
  have c: "1 / 2 = max_coverage ?a \<and> cov_gt (segment_mask ?a) [2, 0, 1] (1 / 2)" by code_simp
  have s: "select_segments ?a = Inr [2]" by code_simp
  have r: "reinvoke_args ?a (1 / 2) = (default_args [1, 0, 3] [[0, 1, 2]])\<lparr>coverage := Some (1 / 2)\<rparr>"
    by (simp add: reinvoke_args_def default_args_def)
  from select_segments_reinvoke_defaults [OF v rc sel disjI1 [OF c]] v s r show ?thesis
    by simp
qed

subsection \<open>Monotonicity under the default bounds\<close>

lemma isin_sum_mono:
  assumes "set s1 \<subseteq> set s2"
  shows "isin_sum m s1 \<le> isin_sum m s2"
proof -
  have "filter (\<lambda>l. l \<in> set s1) (cells m) =
      filter (\<lambda>l. l \<in> set s1) (filter (\<lambda>l. l \<in> set s2) (cells m))"
    using assms by (auto intro: filter_cong)
  then show ?thesis
    unfolding isin_sum_def by (metis length_filter_le)
qed

lemma coverage_of_take_mono:
  assumes "0 < area m" and "i \<le> j"
  shows "\<exists>f1 f2. coverage_of m (take i xs) = Some f1 \<and> coverage_of m (take j xs) = Some f2 \<and> f1 \<le> f2"
proof -
  have "set (take i xs) \<subseteq> set (take j xs)"
    using assms(2) by (rule set_take_subset_set_take)
  then have "isin_sum m (take i xs) \<le> isin_sum m (take j xs)"
    by (rule isin_sum_mono)
  then show ?thesis
    using assms(1) by (simp add: coverage_of_def divide_right_mono)
qed

lemma area_pos_np_max:
  assumes "0 < area m"
  shows "\<exists>v. np_max m = Inr v"
proof -
  have "cells m \<noteq> []" using assms length_cells [of m] by auto
  then show ?thesis by (auto simp: np_max_def split: list.splits)
qed

lemma find_mono:
  assumes "sorted xs" and "\<And>x. P x \<Longrightarrow> Q x" and "find P xs = Some i"
  shows "\<exists>j. find Q xs = Some j \<and> j \<le> i"
  using assms(1,3)
proof (induction xs)
  case Nil
  then show ?case by simp
next
  case (Cons x xs)
  show ?case
  proof (cases "Q x")
    case True
    from Cons.prems(2) obtain n where "n < length (x # xs)" "i = (x # xs) ! n"
      unfolding find_Some_iff by blast
    then have "i \<in> set (x # xs)"
      using nth_mem by blast
    with Cons.prems(1) have "x \<le> i" by auto
    with True show ?thesis by simp
  next
    case False
    then have "\<not> P x" using assms(2) by blast
    with Cons False show ?thesis by simp
  qed
qed

lemma find_Some_upto:
  assumes "find P [0..mx] = Some i"
  shows "0 \<le> i \<and> i \<le> mx"
proof -
  from assms have "i \<in> set [0..mx]"
    by (auto simp: find_Some_iff in_set_conv_nth)
  then show ?thesis by simp
qed

lemma scan_coverage_mono:
  assumes "c \<le> d"
  shows "scan_coverage m ord c mx \<le> scan_coverage m ord d mx"
proof (cases "find (\<lambda>i. cov_ge m (slice_to ord i) d) [0..mx]")
  case None
  show ?thesis
  proof (cases "find (\<lambda>i. cov_ge m (slice_to ord i) c) [0..mx]")
    case None2: None
    with None show ?thesis by (simp add: scan_coverage_def)
  next
    case (Some i)
    with find_Some_upto [OF Some] None show ?thesis by (simp add: scan_coverage_def)
  qed
next
  case (Some i)
  have imp: "cov_ge m (slice_to ord x) d \<Longrightarrow> cov_ge m (slice_to ord x) c" for x
    using assms by (auto simp: cov_ge_def split: option.splits)
  have "sorted [0..mx]" by simp
  from find_mono [OF this _ Some, of "\<lambda>i. cov_ge m (slice_to ord i) c"] imp
  obtain j where "find (\<lambda>i. cov_ge m (slice_to ord i) c) [0..mx] = Some j" "j \<le> i"
    by blast
  with Some show ?thesis by (simp add: scan_coverage_def)
qed

lemma candidate_default_take:
  assumes "0 \<le> mx"
  shows "candidate ord k 0 mx = take (nat (clamp_count k 0 mx + 1)) ord"
  by (simp add: candidate_def slice_to_def clamp_count_def)

lemma clamp_count_mono: "i \<le> j \<Longrightarrow> clamp_count i mn mx \<le> clamp_count j mn mx"
  by (auto simp: clamp_count_def)

lemma select_segments_default_count:
  assumes "np_max m = Inr v"
  shows "select_segments ((default_args ws m)\<lparr>num_of_segments := Some k\<rparr>) =
     Inr (take (nat (clamp_count k 0 (int v + 1) + 1)) (ordered_segments ws))"
proof -
  let ?a = "(default_args ws m)\<lparr>num_of_segments := Some k\<rparr>"
  have v: "validate ?a = Inr (int v + 1)"
    using assms by (simp add: validate_def default_args_def resolve_max_def)
  have g: "\<not> cov_gt m sel 1" "\<not> cov_lt m sel 0" for sel
    using cov_gt_less_one [of m sel 1] cov_lt_pos [of m sel 0] by auto
  have f: "segment_weights ?a = ws" "segment_mask ?a = m" "coverage ?a = None"
    "num_of_segments ?a = Some k" "min_coverage ?a = 0" "max_coverage ?a = 1"
    "min_num_of_segments ?a = 0"
    by (simp_all add: default_args_def)
  have "select_body ?a = Return (Inr (candidate (ordered_segments ws) k 0 (int v + 1)))"
    by (simp add: select_body_def v resolve_count_def f g)
  then show ?thesis
    by (simp add: select_segments.simps candidate_default_take)
qed

lemma select_segments_default_coverage:
  assumes "np_max m = Inr v"
  shows "select_segments ((default_args ws m)\<lparr>coverage := Some c\<rparr>) =
     Inr (take (nat (clamp_count (scan_coverage m (ordered_segments ws) (max (min c 1) 0) (int v + 1))
            0 (int v + 1) + 1)) (ordered_segments ws))"
proof -
  have "(default_args ws m)\<lparr>coverage := Some c\<rparr> = reinvoke_args (default_args ws m) c"
    by (simp add: reinvoke_args_def default_args_def)
  moreover have "np_max (segment_mask (default_args ws m)) = Inr v"
    using assms by (simp add: default_args_def)
  from select_body_reinvoke_args [OF this, of c]
  have "select_body (reinvoke_args (default_args ws m) c) =
     Return (Inr (candidate (ordered_segments ws)
       (scan_coverage m (ordered_segments ws) (max (min c 1) 0) (int v + 1)) 0 (int v + 1)))"
    by (simp add: default_args_def)
  ultimately show ?thesis
    by (simp add: select_segments.simps candidate_default_take)
qed

text \<open>
  C7: for a mask with at least one pixel and every bound at its default, the measured
  coverage fraction of the returned selection is monotone in the request: a larger
  \<open>num_of_segments\<close> never yields a smaller coverage, and neither does a larger coverage
  target.
\<close>

theorem select_segments_coverage_monotone:
  assumes "0 < area m"
  shows "(i \<le> j \<longrightarrow>
      (\<exists>s1 s2 f1 f2.
         select_segments ((default_args ws m)\<lparr>num_of_segments := Some i\<rparr>) = Inr s1 \<and>
         select_segments ((default_args ws m)\<lparr>num_of_segments := Some j\<rparr>) = Inr s2 \<and>
         coverage_of m s1 = Some f1 \<and> coverage_of m s2 = Some f2 \<and> f1 \<le> f2)) \<and>
    (c \<le> d \<longrightarrow>
      (\<exists>s1 s2 f1 f2.
         select_segments ((default_args ws m)\<lparr>coverage := Some c\<rparr>) = Inr s1 \<and>
         select_segments ((default_args ws m)\<lparr>coverage := Some d\<rparr>) = Inr s2 \<and>
         coverage_of m s1 = Some f1 \<and> coverage_of m s2 = Some f2 \<and> f1 \<le> f2))"
proof -
  from area_pos_np_max [OF assms] obtain v where v: "np_max m = Inr v" by blast
  let ?ord = "ordered_segments ws"
  let ?mx = "int v + 1"
  have pre: "\<exists>f1 f2. coverage_of m (take (nat (clamp_count n1 0 ?mx + 1)) ?ord) = Some f1 \<and>
      coverage_of m (take (nat (clamp_count n2 0 ?mx + 1)) ?ord) = Some f2 \<and> f1 \<le> f2"
    if "n1 \<le> n2" for n1 n2
  proof -
    from that have "nat (clamp_count n1 0 ?mx + 1) \<le> nat (clamp_count n2 0 ?mx + 1)"
      using clamp_count_mono [of n1 n2 0 ?mx] by simp
    then show ?thesis
      by (rule coverage_of_take_mono [OF assms])
  qed
  have "i \<le> j \<longrightarrow>
      (\<exists>s1 s2 f1 f2.
         select_segments ((default_args ws m)\<lparr>num_of_segments := Some i\<rparr>) = Inr s1 \<and>
         select_segments ((default_args ws m)\<lparr>num_of_segments := Some j\<rparr>) = Inr s2 \<and>
         coverage_of m s1 = Some f1 \<and> coverage_of m s2 = Some f2 \<and> f1 \<le> f2)"
    using pre [of i j] by (simp add: select_segments_default_count [OF v])
  moreover have "c \<le> d \<longrightarrow>
      (\<exists>s1 s2 f1 f2.
         select_segments ((default_args ws m)\<lparr>coverage := Some c\<rparr>) = Inr s1 \<and>
         select_segments ((default_args ws m)\<lparr>coverage := Some d\<rparr>) = Inr s2 \<and>
         coverage_of m s1 = Some f1 \<and> coverage_of m s2 = Some f2 \<and> f1 \<le> f2)"
  proof
    assume "c \<le> d"
    then have "max (min c 1) 0 \<le> max (min d 1) 0" by auto
    then have "scan_coverage m ?ord (max (min c 1) 0) ?mx \<le> scan_coverage m ?ord (max (min d 1) 0) ?mx"
      by (rule scan_coverage_mono)
    from pre [OF this] show "\<exists>s1 s2 f1 f2.
         select_segments ((default_args ws m)\<lparr>coverage := Some c\<rparr>) = Inr s1 \<and>
         select_segments ((default_args ws m)\<lparr>coverage := Some d\<rparr>) = Inr s2 \<and>
         coverage_of m s1 = Some f1 \<and> coverage_of m s2 = Some f2 \<and> f1 \<le> f2"
      by (simp add: select_segments_default_coverage [OF v])
  qed
  ultimately show ?thesis by blast
qed

theorem select_segments_coverage_monotone_witness:
  "0 < area [[0, 1, 2]] \<and>
   (\<exists>s1 s2 f1 f2.
      select_segments ((default_args [1, 0, 3] [[0, 1, 2]])\<lparr>num_of_segments := Some 0\<rparr>) = Inr s1 \<and>
      select_segments ((default_args [1, 0, 3] [[0, 1, 2]])\<lparr>num_of_segments := Some 1\<rparr>) = Inr s2 \<and>
      coverage_of [[0, 1, 2]] s1 = Some f1 \<and> coverage_of [[0, 1, 2]] s2 = Some f2 \<and> f1 \<le> f2) \<and>
   (\<exists>s1 s2 f1 f2.
      select_segments ((default_args [1, 0, 3] [[0, 1, 2]])\<lparr>coverage := Some (1 / 2)\<rparr>) = Inr s1 \<and>
      select_segments ((default_args [1, 0, 3] [[0, 1, 2]])\<lparr>coverage := Some 1\<rparr>) = Inr s2 \<and>
      coverage_of [[0, 1, 2]] s1 = Some f1 \<and> coverage_of [[0, 1, 2]] s2 = Some f2 \<and> f1 \<le> f2)"
proof -
  have a: "0 < area [[0, 1, 2]]" by code_simp
  have "(0::int) \<le> 1" and "(1 / 2 :: real) \<le> 1" by simp_all
  with select_segments_coverage_monotone [OF a, of 0 1 "[1, 0, 3]" "1 / 2" 1] a
  show ?thesis by blast
qed

subsection \<open>The boundary coverages and the zero maximum\<close>

text \<open>
  C4: with \<open>coverage = 1.0\<close> and every other keyword at its default, the claim is that
  all segment ids of the mask are returned. On the mask \<open>[[0, 1]]\<close> with the weights
  \<open>[1.0, 0.0]\<close> the rank order is \<open>[0, 1]\<close>, the scan stops at the prefix of length 2, the
  count becomes \<open>2 - 2 = 0\<close>, and the call returns the single id 0 with coverage
  \<open>1 / 2\<close>: the lowest-ranked segment is missing.
\<close>

theorem select_segments_coverage_one_drops_last:
  "ordered_segments [1, 0] = [0, 1] \<and>
   select_segments ((default_args [1, 0] [[0, 1]])\<lparr>coverage := Some 1\<rparr>) = Inr [0] \<and>
   coverage_of [[0, 1]] [0] = Some (1 / 2)"
  by code_simp

text \<open>
  C5: with \<open>coverage = 0.0\<close> and every other keyword at its default, the claim is that no
  more than \<open>min_num_of_segments = 0\<close> ids are returned. On the same input the scan stops
  at the empty prefix, the count \<open>0 - 2\<close> is clamped to 0, and the slice
  \<open>ordered_segments[:0 + 1]\<close> returns one id.
\<close>

theorem select_segments_coverage_zero_returns_one:
  "min_num_of_segments ((default_args [1, 0] [[0, 1]])\<lparr>coverage := Some 0\<rparr>) = 0 \<and>
   select_segments ((default_args [1, 0] [[0, 1]])\<lparr>coverage := Some 0\<rparr>) = Inr [0]"
  by code_simp

text \<open>
  C2: the claim is that a call raises the configuration error whenever
  \<open>min_num_of_segments \<ge> max_num_of_segments\<close>. A caller who passes
  \<open>max_num_of_segments = 0\<close> with \<open>min_num_of_segments = 0\<close> gets no error: line 66 replaces
  the supplied 0 by the highest id of the mask plus 1, validation passes, and a selection
  is returned.
\<close>

theorem select_segments_zero_max_accepted:
  "validate ((default_args [1, 0] [[0, 1]])
      \<lparr>coverage := Some (1 / 2), max_num_of_segments := Some 0\<rparr>) = Inr 2 \<and>
   select_segments ((default_args [1, 0] [[0, 1]])
      \<lparr>coverage := Some (1 / 2), max_num_of_segments := Some 0\<rparr>) = Inr [0]"
  by code_simp

section \<open>Properties of scale_opacity\<close>

subsection \<open>The loop over the segments to color\<close>

lemma shapes_agree_lengths:
  assumes "shapes_agree ov m"
  shows "length ov = length m" and "x < length ov \<Longrightarrow> length (ov ! x) = length (m ! x)"
  using assms by (auto simp: shapes_agree_def list_all2_conv_all_nth)

lemma set_alpha_shape:
  assumes "shapes_agree ov m"
  shows "length (set_alpha ov m s v) = length ov"
    and "x < length ov \<Longrightarrow> length (set_alpha ov m s v ! x) = length (ov ! x)"
  using shapes_agree_lengths [OF assms]
  by (simp_all add: set_alpha_def)

lemma set_alpha_pixel:
  assumes "shapes_agree ov m" and "x < length ov" and "y < length (ov ! x)"
  shows "set_alpha ov m s v ! x ! y = (if m ! x ! y = s then (ov ! x ! y)[3 := v] else ov ! x ! y)"
  using shapes_agree_lengths [OF assms(1)] assms(2,3)
  by (simp add: set_alpha_def)

lemma shapes_agree_set_alpha:
  assumes "shapes_agree ov m"
  shows "shapes_agree (set_alpha ov m s v) m"
  using set_alpha_shape [OF assms] shapes_agree_lengths [OF assms]
  by (simp add: shapes_agree_def list_all2_conv_all_nth)

lemma has_alpha_nth:
  "has_alpha ov \<longleftrightarrow> (\<forall>x<length ov. \<forall>y<length (ov ! x). 3 < length (ov ! x ! y))"
  by (simp add: has_alpha_def list_all_length)

lemma has_alpha_set_alpha:
  assumes "shapes_agree ov m" and "has_alpha ov"
  shows "has_alpha (set_alpha ov m s v)"
  using assms(2) set_alpha_shape [OF assms(1)] set_alpha_pixel [OF assms(1)]
  by (simp add: has_alpha_nth)


lemma write_segment_Inr:
  assumes "write_segment h p nop m cast s = Inr h1"
  shows "h1 = h[p := set_alpha (h ! p) m s (cast (nop ! s))]"
    and "shapes_agree (h ! p) m" and "has_alpha (h ! p)" and "s < length nop"
  using assms by (auto simp: write_segment_def split: if_splits)

lemma color_segments_Inr:
  assumes "color_segments h p nop m cast sel = Inr h'" and "p < length h"
  shows "length h' = length h \<and> (\<forall>q. q \<noteq> p \<longrightarrow> h' ! q = h ! q) \<and>
     length (h' ! p) = length (h ! p) \<and>
     (\<forall>x<length (h ! p). length (h' ! p ! x) = length (h ! p ! x) \<and>
        (\<forall>y<length (h ! p ! x). h' ! p ! x ! y =
            (if m ! x ! y \<in> set sel then (h ! p ! x ! y)[3 := cast (nop ! (m ! x ! y))]
             else h ! p ! x ! y)))"
  using assms
proof (induction sel arbitrary: h)
  case Nil
  then show ?case by simp
next
  case (Cons s rest)
  from Cons.prems(1) obtain h1 where w: "write_segment h p nop m cast s = Inr h1"
    and r: "color_segments h1 p nop m cast rest = Inr h'"
    by (auto split: sum.splits)
  note ws = write_segment_Inr [OF w]
  let ?ov = "h ! p"
  let ?v = "cast (nop ! s)"
  have len1: "length h1 = length h" by (simp add: ws(1))
  have h1p: "h1 ! p = set_alpha ?ov m s ?v"
    using Cons.prems(2) by (simp add: ws(1))
  have h1q: "h1 ! q = h ! q" if "q \<noteq> p" for q
    using that by (simp add: ws(1))
  have p1: "p < length h1" using Cons.prems(2) len1 by simp
  note ih = Cons.IH [OF r p1]
  have sh: "length (h1 ! p) = length ?ov"
    and shx: "\<And>x. x < length ?ov \<Longrightarrow> length (h1 ! p ! x) = length (?ov ! x)"
    and px: "\<And>x y. x < length ?ov \<Longrightarrow> y < length (?ov ! x) \<Longrightarrow>
       h1 ! p ! x ! y = (if m ! x ! y = s then (?ov ! x ! y)[3 := ?v] else ?ov ! x ! y)"
    using set_alpha_shape [OF ws(2)] set_alpha_pixel [OF ws(2)] by (simp_all add: h1p)
  have a: "length h' = length h" using ih len1 by simp
  have b: "\<forall>q. q \<noteq> p \<longrightarrow> h' ! q = h ! q" using ih h1q by simp
  have c: "length (h' ! p) = length ?ov" using ih sh by simp
  have d: "length (h' ! p ! x) = length (?ov ! x) \<and>
        (\<forall>y<length (?ov ! x). h' ! p ! x ! y =
            (if m ! x ! y \<in> set (s # rest) then (?ov ! x ! y)[3 := cast (nop ! (m ! x ! y))]
             else ?ov ! x ! y))" if x: "x < length ?ov" for x
  proof (intro conjI allI impI)
    show "length (h' ! p ! x) = length (?ov ! x)"
      using ih x sh shx by simp
  next
    fix y assume y: "y < length (?ov ! x)"
    have "h' ! p ! x ! y =
        (if m ! x ! y \<in> set rest then (h1 ! p ! x ! y)[3 := cast (nop ! (m ! x ! y))]
         else h1 ! p ! x ! y)"
      using ih x y sh shx by simp
    then show "h' ! p ! x ! y =
        (if m ! x ! y \<in> set (s # rest) then (?ov ! x ! y)[3 := cast (nop ! (m ! x ! y))]
         else ?ov ! x ! y)"
      using px [OF x y] by auto
  qed
  from a b c d show ?case by blast
qed

lemma color_segments_succeeds:
  assumes "p < length h" and "shapes_agree (h ! p) m" and "has_alpha (h ! p)"
    and "\<forall>s\<in>set sel. s < length nop"
  shows "\<exists>h'. color_segments h p nop m cast sel = Inr h'"
  using assms
proof (induction sel arbitrary: h)
  case Nil
  then show ?case by simp
next
  case (Cons s rest)
  let ?h1 = "h[p := set_alpha (h ! p) m s (cast (nop ! s))]"
  have w: "write_segment h p nop m cast s = Inr ?h1"
    using Cons.prems by (simp add: write_segment_def)
  have "p < length ?h1" "shapes_agree (?h1 ! p) m" "has_alpha (?h1 ! p)"
    using Cons.prems shapes_agree_set_alpha has_alpha_set_alpha by simp_all
  from Cons.IH [OF this] Cons.prems(4) w show ?case by simp
qed

lemma color_segments_Inl:
  assumes "color_segments h p nop m cast sel = Inl e"
  shows "e = IndexError"
  using assms
proof (induction sel arbitrary: h)
  case Nil
  then show ?case by simp
next
  case (Cons s rest)
  then show ?case
    by (auto simp: write_segment_def split: sum.splits if_splits)
qed


lemma reference_of_invalid_iff:
  "reference_of rel rs = Inl InvalidRelativeTo \<longleftrightarrow>
     rel \<noteq> PStr ''max'' \<and> (\<forall>r. rel \<noteq> PFloat r)"
  by (cases rel) (auto simp: reference_of_def split: list.splits)

lemma scale_opacity_Inl:
  assumes "scale_opacity h overlay ws m sel rel cast = Inl e"
  shows "reference_of rel (rescale ws) = Inl e \<or> e = IndexError"
  using assms color_segments_Inl
  by (fastforce simp: scale_opacity_def Let_def split: sum.splits)

lemma scale_opacity_succeeds:
  assumes "overlay < length h"
    and "shapes_agree (h ! overlay) m" and "has_alpha (h ! overlay)"
    and "\<forall>s\<in>set sel. s < length ws"
    and "reference_of rel (rescale ws) = Inr reference"
  shows "\<exists>h'. scale_opacity h overlay ws m sel rel cast = Inr (length h, h') \<and>
     color_segments (h @ [h ! overlay]) (length h) (new_opacity_of (rescale ws) reference)
       m cast sel = Inr h'"
proof -
  let ?h1 = "h @ [h ! overlay]"
  let ?nop = "new_opacity_of (rescale ws) reference"
  have "length h < length ?h1" "shapes_agree (?h1 ! length h) m" "has_alpha (?h1 ! length h)"
    using assms(2,3) by simp_all
  moreover have "\<forall>s\<in>set sel. s < length ?nop"
    using assms(4) by (simp add: new_opacity_of_def rescale_def)
  ultimately obtain h' where "color_segments ?h1 (length h) ?nop m cast sel = Inr h'"
    using color_segments_succeeds by blast
  then show ?thesis
    using assms(5) by (simp add: scale_opacity_def Let_def)
qed

subsection \<open>The copy and the frame\<close>

text \<open>
  C9: for an overlay and a mask of the same shape, with an alpha channel in every pixel
  and every id of \<open>segments_to_color\<close> an index of the weights, \<open>scale_opacity\<close> returns
  the address of a newly allocated raster; every array allocated before the call, the
  input overlay among them, is unchanged. The new raster has the shape of the overlay
  and equals it at every pixel and channel, except channel 3 of the pixels whose mask
  label is in \<open>segments_to_color\<close>, which holds the (cast) new opacity of that label.
\<close>

theorem scale_opacity_frame:
  assumes "overlay < length h"
    and "shapes_agree (h ! overlay) m" and "has_alpha (h ! overlay)"
    and "\<forall>s\<in>set sel. s < length ws"
    and "reference_of rel (rescale ws) = Inr reference"
  shows "\<exists>h'. scale_opacity h overlay ws m sel rel cast = Inr (length h, h') \<and>
      length h' = Suc (length h) \<and> (\<forall>q<length h. h' ! q = h ! q) \<and>
      length (h' ! length h) = length (h ! overlay) \<and>
      (\<forall>x<length (h ! overlay). length (h' ! length h ! x) = length (h ! overlay ! x) \<and>
        (\<forall>y<length (h ! overlay ! x).
           length (h' ! length h ! x ! y) = length (h ! overlay ! x ! y) \<and>
           (\<forall>c<length (h ! overlay ! x ! y).
              h' ! length h ! x ! y ! c =
                (if c = 3 \<and> m ! x ! y \<in> set sel
                 then cast (new_opacity_of (rescale ws) reference ! (m ! x ! y))
                 else h ! overlay ! x ! y ! c))))"
proof -
  let ?h1 = "h @ [h ! overlay]"
  let ?p = "length h"
  let ?nop = "new_opacity_of (rescale ws) reference"
  from scale_opacity_succeeds [OF assms] obtain h'
    where res: "scale_opacity h overlay ws m sel rel cast = Inr (?p, h')"
      and loop: "color_segments ?h1 ?p ?nop m cast sel = Inr h'"
    by blast
  have p: "?p < length ?h1" by simp
  note inv = color_segments_Inr [OF loop p]
  have h1p: "?h1 ! ?p = h ! overlay" by simp
  have len: "length h' = Suc (length h)" using inv by simp
  have old: "\<forall>q<length h. h' ! q = h ! q"
    using inv by (simp add: nth_append)
  have sh: "length (h' ! ?p) = length (h ! overlay)"
    using inv by (simp only: h1p)
  have px: "length (h' ! ?p ! x) = length (h ! overlay ! x) \<and>
        (\<forall>y<length (h ! overlay ! x).
           length (h' ! ?p ! x ! y) = length (h ! overlay ! x ! y) \<and>
           (\<forall>c<length (h ! overlay ! x ! y).
              h' ! ?p ! x ! y ! c =
                (if c = 3 \<and> m ! x ! y \<in> set sel
                 then cast (?nop ! (m ! x ! y))
                 else h ! overlay ! x ! y ! c)))" if x: "x < length (h ! overlay)" for x
  proof -
    from inv x have lx: "length (h' ! ?p ! x) = length (h ! overlay ! x)"
      and py: "\<And>y. y < length (h ! overlay ! x) \<Longrightarrow> h' ! ?p ! x ! y =
            (if m ! x ! y \<in> set sel then (h ! overlay ! x ! y)[3 := cast (?nop ! (m ! x ! y))]
             else h ! overlay ! x ! y)"
      by (simp_all only: h1p)
    show ?thesis
      using lx py by (simp add: nth_list_update)
  qed
  from res len old sh px show ?thesis by blast
qed

theorem scale_opacity_frame_witness:
  "0 < length [[[[0, 255, 0, 255 :: int], [0, 255, 0, 255]]]] \<and>
   (\<exists>h'. scale_opacity [[[[0, 255, 0, 255 :: int], [0, 255, 0, 255]]]] 0 [3, 4] [[0, 1]] [1]
           (PFloat (1 / 2)) floor = Inr (1, h') \<and>
         length h' = 2 \<and> h' ! 0 = [[[0, 255, 0, 255], [0, 255, 0, 255]]])"
proof -
  let ?ov = "[[[0, 255, 0, 255 :: int], [0, 255, 0, 255]]]"
  have a: "0 < length [?ov]" by simp
  have b: "shapes_agree ([?ov] ! 0) [[0, 1]]" by (simp add: shapes_agree_def)
  have c: "has_alpha ([?ov] ! 0)" by (simp add: has_alpha_def)
  have d: "\<forall>s\<in>set [1 :: nat]. s < length [3, 4 :: real]" by simp
  have e: "reference_of (PFloat (1 / 2)) (rescale [3, 4]) = Inr (1 / 2)"
    by (simp add: reference_of_def)
  from scale_opacity_frame [OF a b c d e, of floor]
  obtain h' where "scale_opacity [?ov] 0 [3, 4] [[0, 1]] [1] (PFloat (1 / 2)) floor = Inr (length [?ov], h')"
    and "length h' = Suc (length [?ov])" and "\<forall>q<length [?ov]. h' ! q = [?ov] ! q"
    by blast
  then have "scale_opacity [?ov] 0 [3, 4] [[0, 1]] [1] (PFloat (1 / 2)) floor = Inr (1, h') \<and>
         length h' = 2 \<and> h' ! 0 = ?ov"
    by simp
  with a show ?thesis by blast
qed

subsection \<open>The value of relative_to\<close>

text \<open>
  C10, as the code has it: \<open>scale_opacity\<close> raises the invalid-configuration error if and
  only if \<open>relative_to\<close> is neither the string \<open>"max"\<close> nor a float. For every float the
  value clamped into \<open>[0, 1]\<close> is the reference, and a call on well-shaped arrays with
  ids in range returns without an error.
\<close>

theorem scale_opacity_relative_to:
  "(scale_opacity h overlay ws m sel rel cast = Inl InvalidRelativeTo \<longleftrightarrow>
      rel \<noteq> PStr ''max'' \<and> (\<forall>r. rel \<noteq> PFloat r)) \<and>
   (rel = PFloat r \<longrightarrow>
      reference_of rel (rescale ws) = Inr (max 0 (min r 1)) \<and>
      (overlay < length h \<and> shapes_agree (h ! overlay) m \<and> has_alpha (h ! overlay) \<and>
       (\<forall>s\<in>set sel. s < length ws) \<longrightarrow>
         (\<exists>res. scale_opacity h overlay ws m sel rel cast = Inr res)))"
proof (intro conjI impI)
  show "scale_opacity h overlay ws m sel rel cast = Inl InvalidRelativeTo \<longleftrightarrow>
      rel \<noteq> PStr ''max'' \<and> (\<forall>r. rel \<noteq> PFloat r)"
  proof
    assume "scale_opacity h overlay ws m sel rel cast = Inl InvalidRelativeTo"
    from scale_opacity_Inl [OF this]
    have "reference_of rel (rescale ws) = Inl InvalidRelativeTo" by simp
    then show "rel \<noteq> PStr ''max'' \<and> (\<forall>r. rel \<noteq> PFloat r)"
      using reference_of_invalid_iff by blast
  next
    assume "rel \<noteq> PStr ''max'' \<and> (\<forall>r. rel \<noteq> PFloat r)"
    then have "reference_of rel (rescale ws) = Inl InvalidRelativeTo"
      using reference_of_invalid_iff by blast
    then show "scale_opacity h overlay ws m sel rel cast = Inl InvalidRelativeTo"
      by (simp add: scale_opacity_def)
  qed
next
  assume "rel = PFloat r"
  then show ref: "reference_of rel (rescale ws) = Inr (max 0 (min r 1))"
    by (simp add: reference_of_def)
  assume "overlay < length h \<and> shapes_agree (h ! overlay) m \<and> has_alpha (h ! overlay) \<and>
       (\<forall>s\<in>set sel. s < length ws)"
  with scale_opacity_succeeds [OF _ _ _ _ ref]
  show "\<exists>res. scale_opacity h overlay ws m sel rel cast = Inr res"
    by blast
qed

theorem scale_opacity_relative_to_witness:
  "reference_of (PFloat (3 / 2)) (rescale [3, 4]) = Inr 1 \<and>
   (\<exists>res. scale_opacity [[[[0, 255, 0, 255 :: int], [0, 255, 0, 255]]]] 0 [3, 4] [[0, 1]] [1]
           (PFloat (3 / 2)) floor = Inr res)"
proof -
  let ?ov = "[[[0, 255, 0, 255 :: int], [0, 255, 0, 255]]]"
  have w: "0 < length [?ov] \<and> shapes_agree ([?ov] ! 0) [[0, 1]] \<and> has_alpha ([?ov] ! 0) \<and>
      (\<forall>s\<in>set [1 :: nat]. s < length [3, 4 :: real])"
    by (simp add: shapes_agree_def has_alpha_def)
  have m: "max 0 (min (3 / 2) 1) = (1 :: real)" by simp
  from scale_opacity_relative_to [of "[?ov]" 0 "[3, 4]" "[[0, 1]]" "[1]" "PFloat (3 / 2)" floor "3 / 2"] w m
  show ?thesis by simp
qed

text \<open>
  C10 as stated, with ``a number'' for ``a float'', fails: the integer 1 is a number, and
  \<open>isinstance(1, float)\<close> is false, so the call raises the invalid-configuration error.
\<close>

theorem scale_opacity_int_rejected:
  "scale_opacity [[[[0, 255, 0, 255 :: int]]]] 0 [3, 4] [[0]] [0] (PInt 1) floor =
     Inl InvalidRelativeTo"
  by (simp add: scale_opacity_def reference_of_def)


end
